theory Spec2Isabelle
  imports Complex_Main "HOL-Library.Word"
begin

section \<open>Strings of the quote fetcher\<close>

text \<open>
  A JavaScript string is a sequence of UTF-16 code units, and \<open>length\<close>, indexing,
  \<open>substring\<close> and the character classes of a regular expression without the \<open>u\<close> flag
  all work on code units. Every character the program names is a single code unit.
\<close>

type_synonym code_unit = "16 word"
type_synonym js_string = "code_unit list"

text \<open>
  The characters matched by \<open>\s\<close> and removed by \<open>String.prototype.trim\<close>: the
  WhiteSpace and LineTerminator productions of ECMAScript (TAB, LF, VT, FF, CR, SP, NBSP,
  the Unicode space separators, LS, PS and ZWNBSP).
\<close>

definition is_space :: "code_unit \<Rightarrow> bool" where
  "is_space c \<longleftrightarrow>
     c \<in> {0x09, 0x0A, 0x0B, 0x0C, 0x0D, 0x20, 0xA0, 0x1680,
          0x2028, 0x2029, 0x202F, 0x205F, 0x3000, 0xFEFF}
     \<or> (0x2000 \<le> c \<and> c \<le> 0x200A)"

text \<open>\<open>quote.trim()\<close>\<close>

definition trim :: "js_string \<Rightarrow> js_string" where
  "trim s = rev (dropWhile is_space (rev (dropWhile is_space s)))"

text \<open>
  \<open>s.replace(/[...]/g, r)\<close> for a character class and a replacement of one code unit:
  every code unit of the class becomes \<open>r\<close>.
\<close>

definition replace_class :: "code_unit list \<Rightarrow> code_unit \<Rightarrow> js_string \<Rightarrow> js_string" where
  "replace_class cls r s = map (\<lambda>c. if c \<in> set cls then r else c) s"

text \<open>\<open>s.replace(/\s+/g, ' ')\<close>: every maximal run of white space becomes one space.\<close>

function replace_space_runs :: "js_string \<Rightarrow> js_string" where
  "replace_space_runs [] = []"
| "replace_space_runs (c # cs) =
     (if is_space c then 0x20 # replace_space_runs (dropWhile is_space cs)
      else c # replace_space_runs cs)"
  by pat_completeness auto
termination
  by (relation "measure length") (auto simp: length_dropWhile_le less_Suc_eq_le)

text \<open>
  The chain that computes \<open>cleanQuote\<close> in \<open>fetchDailyQuote\<close>. The two last classes are
  written in the source with the straight quotation mark twice (\<open>/[""]/g\<close>, code unit
  0x22) and the apostrophe twice (\<open>/['']/g\<close>, code unit 0x27).
\<close>

definition cleanQuote :: "js_string \<Rightarrow> js_string" where
  "cleanQuote quote =
     replace_class [0x27, 0x27] 0x27
       (replace_class [0x22, 0x22] 0x22
         (replace_space_runs
           (replace_class [0x0D, 0x0A, 0x09] 0x20 (trim quote))))"

definition maxLength :: nat where
  "maxLength = 60"

text \<open>\<open>cutPoints\<close>: full stop, exclamation mark, question mark and their CJK forms.\<close>

definition cutPoints :: "code_unit list" where
  "cutPoints = [0x2E, 0x21, 0x3F, 0x3002, 0xFF01, 0xFF1F]"

text \<open>\<open>s[i]\<close> is \<open>undefined\<close> out of range, which no array of characters includes.\<close>

definition char_at :: "js_string \<Rightarrow> nat \<Rightarrow> code_unit option" where
  "char_at s i = (if i < length s then Some (s ! i) else None)"

fun array_includes :: "code_unit list \<Rightarrow> code_unit option \<Rightarrow> bool" where
  "array_includes xs None = False"
| "array_includes xs (Some c) = (c \<in> set xs)"

text \<open>
  The \<open>for\<close> loop from \<open>i\<close> up to \<open>maxLength\<close>: the value of \<open>cutIndex\<close> after it,
  which is \<open>-1\<close> when no cut point is met.
\<close>

function scan_cutIndex :: "js_string \<Rightarrow> nat \<Rightarrow> int" where
  "scan_cutIndex s i =
     (if i < maxLength then
        (if array_includes cutPoints (char_at s i) then int i + 1 else scan_cutIndex s (i + 1))
      else - 1)"
  by pat_completeness auto
termination
  by (relation "measure (\<lambda>(s, i). maxLength - i)") auto

declare scan_cutIndex.simps [simp del]

definition ellipsis :: js_string where
  "ellipsis = [0x2E, 0x2E, 0x2E]"

text \<open>The length limit applied to \<open>cleanQuote\<close>; \<open>substring(0, n)\<close> is \<open>take n\<close>.\<close>

definition limitLength :: "js_string \<Rightarrow> js_string" where
  "limitLength s =
     (if length s > maxLength then
        (let cutIndex = scan_cutIndex s (maxLength - 10) in
         if cutIndex > 0 then take (nat cutIndex) s
         else take (maxLength - 3) s @ ellipsis)
      else s)"

section \<open>The call of \<open>fetchDailyQuote\<close>\<close>

text \<open>
  The errors with which the call rejects. The \<open>catch\<close> block rethrows every error as a
  new \<open>Error\<close> with the same message, so an error is known by its message:
  \<open>HTTP status: statusText\<close>, the message of the empty body, the message of the
  \<open>AbortError\<close> with which \<open>fetch\<close> rejects once its signal is aborted, and the message
  of any other rejection of \<open>fetch\<close> or of \<open>response.text()\<close>.
\<close>

datatype fetch_error =
    Http_error nat js_string
  | Empty_body
  | Abort_error
  | Network_error

record response =
  ok :: bool
  status :: nat
  statusText :: js_string

text \<open>
  The async function is suspended at \<open>await fetch(...)\<close>, then at
  \<open>await response.text()\<close>, and then has settled.
\<close>

datatype phase = Awaiting_fetch | Awaiting_text | Settled "fetch_error + js_string"

text \<open>
  The state of one call: the time at which the timer \<open>timeoutId\<close> is due while it is
  pending, whether \<open>controller.signal\<close> is aborted, and where the function stands.
\<close>

record fetch_call =
  timeoutId :: "nat option"
  aborted :: bool
  phase :: phase

text \<open>What the network delivers to the call.\<close>

datatype net_event =
    Fetch_resolves response
  | Fetch_rejects
  | Text_resolves js_string
  | Text_rejects

definition timeout_ms :: nat where
  "timeout_ms = 5000"

text \<open>
  The call up to its first \<open>await\<close>, started at time \<open>t0\<close> (in milliseconds): the timer
  is set and the request is sent with the controller's signal. Which of the five
  endpoints is drawn does not bear on what the call does with the answer.
\<close>

definition fetchDailyQuote_start :: "nat \<Rightarrow> fetch_call" where
  "fetchDailyQuote_start t0 =
     \<lparr>timeoutId = Some (t0 + timeout_ms), aborted = False, phase = Awaiting_fetch\<rparr>"

text \<open>The \<open>catch\<close> block: \<open>clearTimeout(timeoutId)\<close>, then the error is rethrown.\<close>

definition catch_block :: "fetch_error \<Rightarrow> fetch_call \<Rightarrow> fetch_call" where
  "catch_block e c = c\<lparr>timeoutId := None, phase := Settled (Inl e)\<rparr>"

text \<open>
  The callback of the timer: \<open>controller.abort()\<close>. A \<open>fetch\<close> or a body read that is
  pending on the signal rejects with the \<open>AbortError\<close>, which the \<open>catch\<close> block receives.
\<close>

definition on_timeout :: "fetch_call \<Rightarrow> fetch_call" where
  "on_timeout c =
     (let c1 = c\<lparr>timeoutId := None, aborted := True\<rparr> in
      case phase c of
        Settled r \<Rightarrow> c1
      | _ \<Rightarrow> catch_block Abort_error c1)"

text \<open>
  The body of the \<open>try\<close> block after \<open>await fetch(...)\<close>: \<open>clearTimeout(timeoutId)\<close>,
  then the check of \<open>response.ok\<close>.
\<close>

definition on_response :: "response \<Rightarrow> fetch_call \<Rightarrow> fetch_call" where
  "on_response r c =
     (let c1 = c\<lparr>timeoutId := None\<rparr> in
      if \<not> ok r then catch_block (Http_error (status r) (statusText r)) c1
      else c1\<lparr>phase := Awaiting_text\<rparr>)"

text \<open>
  The body of the \<open>try\<close> block after \<open>await response.text()\<close>: the check
  \<open>!quote || quote.trim().length === 0\<close>, then cleaning and the length limit.
\<close>

definition on_text :: "js_string \<Rightarrow> fetch_call \<Rightarrow> fetch_call" where
  "on_text quote c =
     (if quote = [] \<or> length (trim quote) = 0 then catch_block Empty_body c
      else c\<lparr>phase := Settled (Inr (limitLength (cleanQuote quote)))\<rparr>)"

text \<open>
  A promise settles once, and an awaited promise resumes the function only where it is
  suspended: an event for another phase changes nothing.
\<close>

fun on_event :: "net_event \<Rightarrow> fetch_call \<Rightarrow> fetch_call" where
  "on_event (Fetch_resolves r) c = (if phase c = Awaiting_fetch then on_response r c else c)"
| "on_event Fetch_rejects c = (if phase c = Awaiting_fetch then catch_block Network_error c else c)"
| "on_event (Text_resolves q) c = (if phase c = Awaiting_text then on_text q c else c)"
| "on_event Text_rejects c = (if phase c = Awaiting_text then catch_block Network_error c else c)"

text \<open>Time passes up to \<open>t\<close>: a pending timer that was due earlier has fired.\<close>

definition advance :: "nat \<Rightarrow> fetch_call \<Rightarrow> fetch_call" where
  "advance t c =
     (case timeoutId c of
        None \<Rightarrow> c
      | Some d \<Rightarrow> if d < t then on_timeout c else c)"

text \<open>The call under a timeline of network events, each with its time of arrival.\<close>

fun deliver :: "(nat \<times> net_event) list \<Rightarrow> fetch_call \<Rightarrow> fetch_call" where
  "deliver [] c = c"
| "deliver ((t, e) # evs) c = deliver evs (on_event e (advance t c))"

section \<open>The typewriter\<close>

text \<open>
  The callbacks that the typewriter hands to \<open>setTimeout\<close> and \<open>setInterval\<close>:
  \<open>typeNextChar\<close> of one call of \<open>startTypewriterAnimation\<close>, the end of a cursor flash,
  \<open>blink\<close> of one call of \<open>startCursorBlink\<close>, and the callback that clears the interval
  of that call.
\<close>

datatype task = TypeNextChar nat | CursorOff | Blink nat | StopBlink nat

record timer =
  tid :: nat
  due :: nat
  period :: "nat option"
  task :: task

text \<open>The variables captured by the closures of one call.\<close>

record typing_vars =
  chars :: js_string
  currentIndex :: nat

record blink_vars =
  isVisible :: bool
  blinkCount :: nat

text \<open>
  The target element and the timers of the window: the text of the element, whether its
  right border (the cursor) is shown, its class \<open>typing\<close>, the number of GSAP tweens bound
  to it, the pending timers in the order of their creation, and the closures created so far.
\<close>

record page =
  now :: nat
  textContent :: js_string
  borderRight :: bool
  typing :: bool
  tweens :: nat
  timers :: "timer list"
  next_tid :: nat
  typings :: "nat \<Rightarrow> typing_vars"
  next_typing :: nat
  blinks :: "nat \<Rightarrow> blink_vars"
  next_blink :: nat

definition setTimeout :: "task \<Rightarrow> nat \<Rightarrow> page \<Rightarrow> page" where
  "setTimeout k ms p =
     p\<lparr>timers := timers p @ [\<lparr>tid = next_tid p, due = now p + ms, period = None, task = k\<rparr>],
       next_tid := next_tid p + 1\<rparr>"

definition setInterval :: "task \<Rightarrow> nat \<Rightarrow> page \<Rightarrow> page" where
  "setInterval k ms p =
     p\<lparr>timers := timers p @ [\<lparr>tid = next_tid p, due = now p + ms, period = Some ms, task = k\<rparr>],
       next_tid := next_tid p + 1\<rparr>"

definition clearInterval :: "nat \<Rightarrow> page \<Rightarrow> page" where
  "clearInterval i p = p\<lparr>timers := filter (\<lambda>t. tid t \<noteq> i) (timers p)\<rparr>"

text \<open>\<open>/[a-zA-Z]/\<close>\<close>

definition is_letter :: "code_unit \<Rightarrow> bool" where
  "is_letter c \<longleftrightarrow> (0x61 \<le> c \<and> c \<le> 0x7A) \<or> (0x41 \<le> c \<and> c \<le> 0x5A)"

text \<open>
  The class of the second test of \<open>typeNextChar\<close>: the full-width comma, the ideographic
  full stop, the full-width exclamation and question marks, the ideographic comma, the
  full-width semicolon and colon.
\<close>

definition pause_marks :: "code_unit list" where
  "pause_marks = [0xFF0C, 0x3002, 0xFF01, 0xFF1F, 0x3001, 0xFF1B, 0xFF1A]"

text \<open>
  Number values are IEEE 754 double-precision numbers, written as the real numbers they
  denote. A product or a sum is the exact result rounded to the nearest double, a tie
  going to the even significand; the values of this program stay far below \<open>2 ^ 1024\<close>,
  where rounding would overflow. \<open>binade n x\<close> is the exponent \<open>e\<close> with
  \<open>2 ^ e \<le> x < 2 ^ (e + 1)\<close>, found in at most \<open>n\<close> halvings or doublings, and \<open>ulp x\<close>
  is the distance between the doubles around \<open>x\<close>: 52 binary places below the exponent,
  which is at least \<open>-1022\<close>.
\<close>

definition pow2 :: "int \<Rightarrow> real" where
  "pow2 k = (if 0 \<le> k then 2 ^ nat k else 1 / 2 ^ nat (- k))"

fun binade :: "nat \<Rightarrow> real \<Rightarrow> int" where
  "binade 0 x = 0"
| "binade (Suc n) x =
     (if 2 \<le> x then binade n (x / 2) + 1
      else if x < 1 then binade n (2 * x) - 1
      else 0)"

definition round_ties_even :: "real \<Rightarrow> int" where
  "round_ties_even q =
     (let f = \<lfloor>q\<rfloor>; d = q - of_int f in
      if d < 1 / 2 then f
      else if 1 / 2 < d then f + 1
      else if even f then f else f + 1)"

definition ulp :: "real \<Rightarrow> real" where
  "ulp x = pow2 (max (binade 1100 x) (- 1022) - 52)"

definition round_double :: "real \<Rightarrow> real" where
  "round_double x =
     (if x = 0 then 0
      else sgn x * (ulp \<bar>x\<bar> * of_int (round_ties_even (\<bar>x\<bar> / ulp \<bar>x\<bar>))))"

definition js_mul :: "real \<Rightarrow> real \<Rightarrow> real" where
  "js_mul a b = round_double (a * b)"

definition js_add :: "real \<Rightarrow> real \<Rightarrow> real" where
  "js_add a b = round_double (a + b)"

text \<open>
  \<open>delay\<close> for the character just shown; \<open>r\<close> is the value of \<open>Math.random()\<close>, a
  number with \<open>0 \<le> r < 1\<close>.
\<close>

definition char_delay :: "code_unit \<Rightarrow> real \<Rightarrow> real" where
  "char_delay char r =
     (if char = 0x20 then 50
      else if char \<in> set pause_marks then 200
      else if is_letter char then js_add (js_mul r 30) 70
      else js_add (js_mul r 40) 90)"

text \<open>
  \<open>startCursorBlink\<close>: the variables of the closure, the interval of 500 ms and the
  timeout of 30000 ms that clears it.
\<close>

definition startCursorBlink :: "page \<Rightarrow> page" where
  "startCursorBlink p =
     (let b = next_blink p;
          p1 = p\<lparr>blinks := (blinks p)(b := \<lparr>isVisible = True, blinkCount = 0\<rparr>),
                 next_blink := b + 1\<rparr>;
          blinkInterval = next_tid p1;
          p2 = setInterval (Blink b) 500 p1
      in setTimeout (StopBlink blinkInterval) 30000 p2)"

text \<open>The callback \<open>blink\<close> of the closure \<open>b\<close>.\<close>

definition blink :: "nat \<Rightarrow> page \<Rightarrow> page" where
  "blink b p =
     (let v = blinks p b;
          v' = v\<lparr>isVisible := \<not> isVisible v, blinkCount := blinkCount v + 1\<rparr>;
          p1 = p\<lparr>borderRight := isVisible v, blinks := (blinks p)(b := v')\<rparr>
      in if blinkCount v' > 120 then p1\<lparr>borderRight := False\<rparr> else p1)"

text \<open>The callback of the timeout of 30000 ms.\<close>

definition stopBlink :: "nat \<Rightarrow> page \<Rightarrow> page" where
  "stopBlink blinkInterval p = (clearInterval blinkInterval p)\<lparr>borderRight := False\<rparr>"

text \<open>
  The callback \<open>typeNextChar\<close> of the closure \<open>sid\<close>; \<open>r1\<close> and \<open>r2\<close> are the values of
  the two calls of \<open>Math.random()\<close>; the literal \<open>0.8\<close> is the double nearest to 8/10.
  \<open>setTimeout\<close> takes the whole milliseconds of the delay. The call of
  \<open>showNotification\<close> that ends the second branch comes after \<open>startCursorBlink\<close> and
  touches neither the target nor its timers.
\<close>

definition typeNextChar :: "nat \<Rightarrow> real \<Rightarrow> real \<Rightarrow> page \<Rightarrow> page" where
  "typeNextChar sid r1 r2 p =
     (let v = typings p sid; i = currentIndex v in
      if i < length (chars v) then
        (let char = chars v ! i;
             p1 = p\<lparr>textContent := take (i + 1) (chars v),
                    typings := (typings p)(sid := v\<lparr>currentIndex := i + 1\<rparr>)\<rparr>;
             p2 = setTimeout (TypeNextChar sid) (nat \<lfloor>char_delay char r1\<rfloor>) p1
         in if r2 > round_double (8 / 10) then setTimeout CursorOff 80 (p2\<lparr>borderRight := True\<rparr>)
            else p2)
      else startCursorBlink (p\<lparr>typing := False\<rparr>))"

text \<open>
  \<open>startTypewriterAnimation(element, text)\<close>: \<open>gsap.killTweensOf(element)\<close>, the element
  is emptied, a new closure is made and \<open>typeNextChar\<close> is called at once.
\<close>

definition startTypewriterAnimation :: "js_string \<Rightarrow> real \<Rightarrow> real \<Rightarrow> page \<Rightarrow> page" where
  "startTypewriterAnimation txt r1 r2 p =
     (let p1 = p\<lparr>tweens := 0, textContent := [], typing := True, borderRight := False\<rparr>;
          sid = next_typing p1;
          p2 = p1\<lparr>typings := (typings p1)(sid := \<lparr>chars = txt, currentIndex = 0\<rparr>),
                  next_typing := sid + 1\<rparr>
      in typeNextChar sid r1 r2 p2)"

fun run_task :: "task \<Rightarrow> real \<Rightarrow> real \<Rightarrow> page \<Rightarrow> page" where
  "run_task (TypeNextChar sid) r1 r2 p = typeNextChar sid r1 r2 p"
| "run_task CursorOff r1 r2 p = p\<lparr>borderRight := False\<rparr>"
| "run_task (Blink b) r1 r2 p = blink b p"
| "run_task (StopBlink i) r1 r2 p = stopBlink i p"

text \<open>
  A pending timer fires: the clock is at its due time, a timeout leaves the list and an
  interval is due again one period later, and the callback runs.
\<close>

definition fire :: "timer \<Rightarrow> real \<Rightarrow> real \<Rightarrow> page \<Rightarrow> page" where
  "fire t r1 r2 p =
     run_task (task t) r1 r2
       (p\<lparr>now := max (now p) (due t),
          timers := (case period t of
                       None \<Rightarrow> remove1 t (timers p)
                     | Some d \<Rightarrow> map (\<lambda>u. if u = t then u\<lparr>due := due t + d\<rparr> else u) (timers p))\<rparr>)"


text \<open>A page with an empty element, no timer and no closure.\<close>

definition empty_page :: page where
  "empty_page =
     \<lparr>now = 0, textContent = [], borderRight = False, typing = False, tweens = 0,
      timers = [], next_tid = 0,
      typings = (\<lambda>_. \<lparr>chars = [], currentIndex = 0\<rparr>), next_typing = 0,
      blinks = (\<lambda>_. \<lparr>isVisible = True, blinkCount = 0\<rparr>), next_blink = 0\<rparr>"

section \<open>Invariants used in the proofs\<close>

text \<open>
  Of a call of \<open>fetchDailyQuote\<close>: past the first \<open>await\<close>, its timer is not pending.
\<close>

definition cleared :: "fetch_call \<Rightarrow> bool" where
  "cleared c \<longleftrightarrow> (phase c = Awaiting_fetch \<or> timeoutId c = None)"






section \<open>Properties of the length limit\<close>

lemma scan_cutIndex_range:
  "scan_cutIndex s i = - 1 \<or> (int i < scan_cutIndex s i \<and> scan_cutIndex s i \<le> int maxLength)"
proof (induction s i rule: scan_cutIndex.induct)
  case (1 s i)
  show ?case
  proof (cases "i < maxLength")
    case False
    then show ?thesis by (simp add: scan_cutIndex.simps [of s i])
  next
    case True
    show ?thesis
    proof (cases "array_includes cutPoints (char_at s i)")
      case True
      with \<open>i < maxLength\<close> show ?thesis by (simp add: scan_cutIndex.simps [of s i])
    next
      case False
      with \<open>i < maxLength\<close> "1.IH" have
        "scan_cutIndex s (i + 1) = - 1 \<or>
         (int (i + 1) < scan_cutIndex s (i + 1) \<and> scan_cutIndex s (i + 1) \<le> int maxLength)"
        by simp
      moreover from False \<open>i < maxLength\<close> have "scan_cutIndex s i = scan_cutIndex s (i + 1)"
        by (simp add: scan_cutIndex.simps [of s i])
      ultimately show ?thesis by auto
    qed
  qed
qed

text \<open>
  Claim C1. Whatever the response body, the quote that is cleaned and then limited in
  length has at most 60 code units.
\<close>

theorem displayQuote_length_le_60: "length (limitLength (cleanQuote quote)) \<le> 60"
proof -
  have "length (limitLength s) \<le> 60" for s
  proof (cases "length s > maxLength")
    case False
    then show ?thesis by (simp add: limitLength_def maxLength_def)
  next
    case True
    from scan_cutIndex_range [of s "maxLength - 10"]
    show ?thesis
      using True by (auto simp: limitLength_def Let_def maxLength_def ellipsis_def)
  qed
  then show ?thesis .
qed

lemma scan_cutIndex_found:
  "i \<le> k \<Longrightarrow> k < maxLength \<Longrightarrow> k < length s \<Longrightarrow> s ! k \<in> set cutPoints \<Longrightarrow>
   (\<And>j. i \<le> j \<Longrightarrow> j < k \<Longrightarrow> s ! j \<notin> set cutPoints) \<Longrightarrow>
   scan_cutIndex s i = int k + 1"
proof (induction s i rule: scan_cutIndex.induct)
  case (1 s i)
  show ?case
  proof (cases "i = k")
    case True
    with "1.prems" show ?thesis
      by (simp add: scan_cutIndex.simps [of s k] char_at_def)
  next
    case False
    with "1.prems" have ik: "i < k" by simp
    with "1.prems" have notcut: "\<not> array_includes cutPoints (char_at s i)"
      by (simp add: char_at_def)
    from ik "1.prems" have lt: "i < maxLength" by simp
    have "scan_cutIndex s (i + 1) = int k + 1"
      using "1.IH" [OF lt notcut] ik "1.prems" by simp
    with lt notcut show ?thesis
      by (simp add: scan_cutIndex.simps [of s i])
  qed
qed

lemma scan_cutIndex_none:
  "(\<And>j. i \<le> j \<Longrightarrow> j < maxLength \<Longrightarrow> \<not> array_includes cutPoints (char_at s j)) \<Longrightarrow>
   scan_cutIndex s i = - 1"
proof (induction s i rule: scan_cutIndex.induct)
  case (1 s i)
  show ?case
  proof (cases "i < maxLength")
    case False
    then show ?thesis by (simp add: scan_cutIndex.simps [of s i])
  next
    case True
    from "1.prems" [of i] True have notcut: "\<not> array_includes cutPoints (char_at s i)"
      by simp
    have "scan_cutIndex s (i + 1) = - 1"
      using "1.IH" [OF True notcut] "1.prems" by simp
    with True notcut show ?thesis
      by (simp add: scan_cutIndex.simps [of s i])
  qed
qed

text \<open>
  Claim C2. A cleaned quote of more than 60 code units is cut at the first of the
  positions 50 to 59 that holds one of the six cut points, the mark being the last
  code unit kept; when none of these positions holds one, the result is the first 57
  code units followed by three full stops, 60 code units in all.
\<close>

theorem limitLength_long:
  assumes "60 < length s"
  shows "(\<forall>i. 50 \<le> i \<and> i < 60 \<and> s ! i \<in> set cutPoints \<and>
              (\<forall>j. 50 \<le> j \<and> j < i \<longrightarrow> s ! j \<notin> set cutPoints)
            \<longrightarrow> limitLength s = take (i + 1) s \<and> last (limitLength s) = s ! i) \<and>
         ((\<forall>j. 50 \<le> j \<and> j < 60 \<longrightarrow> s ! j \<notin> set cutPoints)
            \<longrightarrow> limitLength s = take 57 s @ [0x2E, 0x2E, 0x2E] \<and> length (limitLength s) = 60)"
proof (intro conjI allI impI)
  fix i
  assume h: "50 \<le> i \<and> i < 60 \<and> s ! i \<in> set cutPoints \<and>
             (\<forall>j. 50 \<le> j \<and> j < i \<longrightarrow> s ! j \<notin> set cutPoints)"
  with assms have "scan_cutIndex s 50 = int i + 1"
    by (intro scan_cutIndex_found) (auto simp: maxLength_def)
  with assms show "limitLength s = take (i + 1) s"
    by (simp add: limitLength_def maxLength_def Let_def nat_add_distrib)
  with assms h show "last (limitLength s) = s ! i"
    by (simp add: take_Suc_conv_app_nth)
next
  assume h: "\<forall>j. 50 \<le> j \<and> j < 60 \<longrightarrow> s ! j \<notin> set cutPoints"
  with assms have "scan_cutIndex s 50 = - 1"
    by (intro scan_cutIndex_none) (auto simp: maxLength_def char_at_def)
  with assms show "limitLength s = take 57 s @ [0x2E, 0x2E, 0x2E]"
    by (simp add: limitLength_def maxLength_def Let_def ellipsis_def)
  with assms show "length (limitLength s) = 60"
    by simp
qed

theorem limitLength_long_witness:
  "limitLength (replicate 55 0x61 @ [0x3002] @ replicate 10 0x61) = replicate 55 0x61 @ [0x3002]
   \<and> limitLength (replicate 61 0x61) = replicate 57 0x61 @ [0x2E, 0x2E, 0x2E]"
proof -
  let ?s = "replicate 55 0x61 @ [0x3002] @ replicate 10 (0x61 :: code_unit)"
  let ?t = "replicate 61 (0x61 :: code_unit)"
  have nth: "?s ! j = (if j = 55 then 0x3002 else 0x61)" if "j < 66" for j
    using that by (auto simp: nth_append nth_Cons')
  have 1: "limitLength ?s = take (55 + 1) ?s"
    using limitLength_long [of ?s, THEN conjunct1, rule_format, of 55]
    by (auto simp: nth cutPoints_def nth_append)
  have 2: "limitLength ?t = take 57 ?t @ [0x2E, 0x2E, 0x2E]"
    using limitLength_long [of ?t, THEN conjunct2]
    by (auto simp: cutPoints_def)
  from 1 2 show ?thesis by simp
qed

section \<open>Properties of cleaning\<close>

lemma replace_class_same: "replace_class [r, r] r s = s"
  by (simp add: replace_class_def map_idI)

lemma cleanQuote_eq:
  "cleanQuote quote = replace_space_runs (replace_class [0x0D, 0x0A, 0x09] 0x20 (trim quote))"
  by (simp add: cleanQuote_def replace_class_same)

lemma is_space_0x20: "is_space 0x20"
  by (simp add: is_space_def)

lemma is_space_replaced:
  "is_space (if c \<in> set [0x0D, 0x0A, 0x09] then 0x20 else c) = is_space c"
  by (auto simp: is_space_def)

lemma replace_space_runs_Nil_iff: "replace_space_runs s = [] \<longleftrightarrow> s = []"
  by (cases s) auto

lemma hd_replace_space_runs:
  "s \<noteq> [] \<Longrightarrow> \<not> is_space (hd s) \<Longrightarrow> \<not> is_space (hd (replace_space_runs s))"
  by (cases s) auto

lemma dropWhile_head: "xs = [] \<or> \<not> P (hd xs) \<Longrightarrow> dropWhile P xs = xs"
  by (cases xs) auto

lemma dropWhile_result: "dropWhile P xs = [] \<or> \<not> P (hd (dropWhile P xs))"
  using hd_dropWhile [of P xs] by blast

lemma dropWhile_replace_space_runs:
  "dropWhile is_space (replace_space_runs (dropWhile is_space cs)) =
   replace_space_runs (dropWhile is_space cs)"
proof (rule dropWhile_head)
  show "replace_space_runs (dropWhile is_space cs) = [] \<or>
        \<not> is_space (hd (replace_space_runs (dropWhile is_space cs)))"
  proof (cases "dropWhile is_space cs = []")
    case True
    then show ?thesis by (simp del: dropWhile_eq_Nil_conv)
  next
    case False
    with dropWhile_result [of is_space cs] have "\<not> is_space (hd (dropWhile is_space cs))"
      by blast
    with False show ?thesis by (simp add: hd_replace_space_runs del: dropWhile_eq_Nil_conv)
  qed
qed

lemma last_dropWhile_nonempty: "dropWhile P xs \<noteq> [] \<Longrightarrow> last (dropWhile P xs) = last xs"
  by (induction xs) auto

lemma replace_space_runs_idem: "replace_space_runs (replace_space_runs s) = replace_space_runs s"
  by (induction s rule: replace_space_runs.induct)
     (simp_all add: is_space_0x20 dropWhile_replace_space_runs)

lemma replace_space_runs_spaces:
  "c \<in> set (replace_space_runs s) \<Longrightarrow> is_space c \<Longrightarrow> c = 0x20"
proof (induction s rule: replace_space_runs.induct)
  case 1
  then show ?case by simp
next
  case (2 d ds)
  then show ?case by (cases "is_space d") auto
qed

lemma last_replace_space_runs:
  "s \<noteq> [] \<Longrightarrow> \<not> is_space (last s) \<Longrightarrow> \<not> is_space (last (replace_space_runs s))"
proof (induction s rule: replace_space_runs.induct)
  case 1
  then show ?case by simp
next
  case (2 c cs)
  show ?case
  proof (cases "is_space c")
    case False
    with 2 show ?thesis by (cases cs) (auto simp: replace_space_runs_Nil_iff)
  next
    case True
    with "2.prems" have ne: "cs \<noteq> []" by auto
    with "2.prems" have lst: "\<not> is_space (last cs)" by simp
    from ne lst have "last cs \<in> set cs" "\<not> is_space (last cs)" by simp_all
    then have dne: "dropWhile is_space cs \<noteq> []"
      by auto
    then have "last (dropWhile is_space cs) = last cs"
      by (rule last_dropWhile_nonempty)
    with "2.IH"(1) [OF True dne] lst
    have "\<not> is_space (last (replace_space_runs (dropWhile is_space cs)))" by simp
    with True dne show ?thesis
      by (simp add: replace_space_runs_Nil_iff del: dropWhile_eq_Nil_conv)
  qed
qed

lemma trim_ends: "trim s = [] \<or> (\<not> is_space (hd (trim s)) \<and> \<not> is_space (last (trim s)))"
proof (cases "trim s = []")
  case True
  then show ?thesis by simp
next
  case False
  let ?a = "dropWhile is_space s"
  let ?b = "dropWhile is_space (rev ?a)"
  from False have bne: "?b \<noteq> []" by (simp add: trim_def)
  then have hb: "\<not> is_space (hd ?b)" using hd_dropWhile by blast
  have "?a = [] \<Longrightarrow> ?b = []" by (simp del: dropWhile_eq_Nil_conv)
  with bne have ane: "?a \<noteq> []" by blast
  then have ha: "\<not> is_space (hd ?a)" using hd_dropWhile by blast
  have "last (trim s) = hd ?b" using bne by (simp add: trim_def last_rev)
  moreover have "hd (trim s) = last ?b" using bne by (simp add: trim_def hd_rev)
  moreover have "last ?b = last (rev ?a)" using bne by (rule last_dropWhile_nonempty)
  moreover have "last (rev ?a) = hd ?a" using ane by (simp add: last_rev)
  ultimately show ?thesis using ha hb by simp
qed

lemma trim_fixed: "s = [] \<or> (\<not> is_space (hd s) \<and> \<not> is_space (last s)) \<Longrightarrow> trim s = s"
proof (cases "s = []")
  case True
  then show ?thesis by (simp add: trim_def)
next
  case False
  assume "s = [] \<or> (\<not> is_space (hd s) \<and> \<not> is_space (last s))"
  with False have h: "\<not> is_space (hd s)" and l: "\<not> is_space (last s)" by simp_all
  from False h have 1: "dropWhile is_space s = s" by (cases s) auto
  from False l have "\<not> is_space (hd (rev s))" by (simp add: hd_rev)
  with False have 2: "dropWhile is_space (rev s) = rev s" by (cases "rev s") auto
  from 1 2 show ?thesis by (simp add: trim_def)
qed

lemma replace_class_fixed:
  "(\<And>c. c \<in> set s \<Longrightarrow> c \<in> set cls \<Longrightarrow> c = r) \<Longrightarrow> replace_class cls r s = s"
  by (auto simp: replace_class_def intro: map_idI)

lemma cleanQuote_ends:
  "cleanQuote q = [] \<or> (\<not> is_space (hd (cleanQuote q)) \<and> \<not> is_space (last (cleanQuote q)))"
proof (cases "trim q = []")
  case True
  then show ?thesis by (simp add: cleanQuote_eq replace_class_def)
next
  case False
  let ?r = "replace_class [0x0D, 0x0A, 0x09] 0x20 (trim q)"
  from False trim_ends [of q] have e: "\<not> is_space (hd (trim q))" "\<not> is_space (last (trim q))"
    by simp_all
  from False have rne: "?r \<noteq> []" by (simp add: replace_class_def)
  from False e have "\<not> is_space (hd ?r)" "\<not> is_space (last ?r)"
    unfolding replace_class_def by (simp_all only: hd_map last_map is_space_replaced not_False_eq_True)
  with rne show ?thesis
    by (simp add: cleanQuote_eq hd_replace_space_runs last_replace_space_runs)
qed

text \<open>
  Claim C4. Cleaning is idempotent: a cleaned string is left as it is by the chain of
  \<open>trim\<close> and the four replacements.
\<close>

theorem cleanQuote_idempotent: "cleanQuote (cleanQuote s) = cleanQuote s"
proof -
  let ?t = "cleanQuote s"
  have 1: "trim ?t = ?t" using cleanQuote_ends [of s] by (rule trim_fixed)
  have 2: "replace_class [0x0D, 0x0A, 0x09] 0x20 ?t = ?t"
  proof (rule replace_class_fixed)
    fix c assume "c \<in> set ?t" "c \<in> set [0x0D, 0x0A, 0x09]"
    then have "c \<in> set ?t" "is_space c" by (auto simp: is_space_def)
    then show "c = 0x20" unfolding cleanQuote_eq by (rule replace_space_runs_spaces)
  qed
  have 3: "replace_space_runs ?t = ?t"
    by (simp add: cleanQuote_eq replace_space_runs_idem)
  have "cleanQuote ?t = replace_space_runs (replace_class [0x0D, 0x0A, 0x09] 0x20 (trim ?t))"
    by (rule cleanQuote_eq)
  with 1 2 3 show ?thesis by simp
qed

text \<open>
  Claim C3. The chain trims the body, turns each carriage return, line feed and tab into
  a space and each run of white space into one space: the body \<open>Hello\<close>, two line
  feeds, \<open>World\<close> becomes \<open>Hello World\<close>. The two last replacements name the straight
  marks only, so the curly double quotation marks (code units 0x201C and 0x201D) and the
  curly single ones (0x2018 and 0x2019) stay as they are.
\<close>

theorem cleanQuote_keeps_curly_quotes:
  "cleanQuote [0x48, 0x65, 0x6C, 0x6C, 0x6F, 0x0A, 0x0A, 0x57, 0x6F, 0x72, 0x6C, 0x64]
     = [0x48, 0x65, 0x6C, 0x6C, 0x6F, 0x20, 0x57, 0x6F, 0x72, 0x6C, 0x64] \<and>
   cleanQuote [0x201C, 0x48, 0x69, 0x201D] = [0x201C, 0x48, 0x69, 0x201D] \<and>
   cleanQuote [0x2018, 0x48, 0x69, 0x2019] = [0x2018, 0x48, 0x69, 0x2019]"
  by (simp add: cleanQuote_def trim_def replace_class_def is_space_def)

section \<open>Properties of the call of \<open>fetchDailyQuote\<close>\<close>

lemma trim_Nil_iff: "trim s = [] \<longleftrightarrow> (\<forall>c \<in> set s. is_space c)"
proof
  assume "trim s = []"
  then have "dropWhile is_space (rev (dropWhile is_space s)) = []"
    by (simp add: trim_def)
  then have "\<forall>c \<in> set (dropWhile is_space s). is_space c"
    by simp
  then have "dropWhile is_space s = []"
    using hd_dropWhile [of is_space s] by (cases "dropWhile is_space s") (auto simp del: dropWhile_eq_Nil_conv)
  then show "\<forall>c \<in> set s. is_space c" by simp
next
  assume "\<forall>c \<in> set s. is_space c"
  then have "dropWhile is_space s = []" by simp
  then show "trim s = []" by (simp add: trim_def del: dropWhile_eq_Nil_conv)
qed

lemma advance_cleared: "timeoutId c = None \<Longrightarrow> advance t c = c"
  by (simp add: advance_def)

lemma advance_cases: "advance t c = c \<or> advance t c = on_timeout c"
  by (simp add: advance_def split: option.splits)

lemma phase_on_timeout:
  "phase (on_timeout c) = (case phase c of Settled r \<Rightarrow> Settled r | _ \<Rightarrow> Settled (Inl Abort_error))"
  by (cases "phase c") (simp_all add: on_timeout_def catch_block_def Let_def)

lemma phase_advance_settled: "phase c = Settled r \<Longrightarrow> phase (advance t c) = Settled r"
  using advance_cases [of t c] by (auto simp: phase_on_timeout)

lemma phase_on_event_settled: "phase c = Settled r \<Longrightarrow> phase (on_event e c) = Settled r"
  by (cases e) simp_all

lemma phase_deliver_settled: "phase c = Settled r \<Longrightarrow> phase (deliver evs c) = Settled r"
proof (induction evs arbitrary: c)
  case Nil
  then show ?case by simp
next
  case (Cons a evs)
  obtain t e where a: "a = (t, e)" by (cases a)
  from Cons.prems have "phase (on_event e (advance t c)) = Settled r"
    by (intro phase_on_event_settled phase_advance_settled)
  then have "phase (deliver evs (on_event e (advance t c))) = Settled r" by (rule Cons.IH)
  with a show ?case by simp
qed

lemma phase_advance_pending:
  "phase c \<noteq> Settled (Inl Empty_body) \<Longrightarrow>
   advance t c = c \<or> (\<exists>r. phase (advance t c) = Settled r \<and> r \<noteq> Inl Empty_body)"
proof -
  assume ne: "phase c \<noteq> Settled (Inl Empty_body)"
  from advance_cases [of t c] show ?thesis
  proof
    assume "advance t c = c"
    then show ?thesis ..
  next
    assume "advance t c = on_timeout c"
    with ne have "\<exists>r. phase (advance t c) = Settled r \<and> r \<noteq> Inl Empty_body"
      by (cases "phase c") (simp_all add: phase_on_timeout)
    then show ?thesis ..
  qed
qed

lemma empty_body_from_text:
  "phase c = Awaiting_text \<Longrightarrow> phase (deliver evs c) = Settled (Inl Empty_body) \<Longrightarrow>
   \<exists>t q. (t, Text_resolves q) \<in> set evs \<and> (\<forall>x \<in> set q. is_space x)"
proof (induction evs arbitrary: c)
  case Nil
  then show ?case by simp
next
  case (Cons a evs)
  obtain t e where a: "a = (t, e)" by (cases a)
  from Cons.prems(2) a
  have fin: "phase (deliver evs (on_event e (advance t c))) = Settled (Inl Empty_body)" by simp
  from Cons.prems(1) have "phase c \<noteq> Settled (Inl Empty_body)" by simp
  from phase_advance_pending [OF this, of t] have adv: "advance t c = c"
  proof
    assume "\<exists>r. phase (advance t c) = Settled r \<and> r \<noteq> Inl Empty_body"
    then obtain r where r: "phase (advance t c) = Settled r" "r \<noteq> Inl Empty_body" by blast
    then have "phase (deliver evs (on_event e (advance t c))) = Settled r"
      by (intro phase_deliver_settled phase_on_event_settled)
    with fin r show ?thesis by simp
  qed
  show ?case
  proof (cases e)
    case (Text_resolves q)
    show ?thesis
    proof (cases "\<forall>x \<in> set q. is_space x")
      case True
      with a Text_resolves have "(t, Text_resolves q) \<in> set (a # evs) \<and> (\<forall>x \<in> set q. is_space x)"
        by simp
      then show ?thesis by blast
    next
      case False
      then have "q \<noteq> []" "trim q \<noteq> []" by (auto simp: trim_Nil_iff)
      with Cons.prems(1) Text_resolves adv
      have "phase (on_event e (advance t c)) = Settled (Inr (limitLength (cleanQuote q)))"
        by (simp add: on_text_def)
      then have "phase (deliver evs (on_event e (advance t c)))
          = Settled (Inr (limitLength (cleanQuote q)))"
        by (rule phase_deliver_settled)
      with fin show ?thesis by simp
    qed
  next
    case Text_rejects
    with Cons.prems(1) adv have "phase (on_event e (advance t c)) = Settled (Inl Network_error)"
      by (simp add: catch_block_def)
    then have "phase (deliver evs (on_event e (advance t c))) = Settled (Inl Network_error)"
      by (rule phase_deliver_settled)
    with fin show ?thesis by simp
  next
    case (Fetch_resolves r)
    with Cons.prems(1) adv have "on_event e (advance t c) = c" by simp
    with fin Cons.IH [OF Cons.prems(1)] show ?thesis by auto
  next
    case Fetch_rejects
    with Cons.prems(1) adv have "on_event e (advance t c) = c" by simp
    with fin Cons.IH [OF Cons.prems(1)] show ?thesis by auto
  qed
qed

lemma empty_body_from_fetch:
  "phase c = Awaiting_fetch \<Longrightarrow> phase (deliver evs c) = Settled (Inl Empty_body) \<Longrightarrow>
   (\<exists>t r. (t, Fetch_resolves r) \<in> set evs \<and> ok r) \<and>
   (\<exists>t q. (t, Text_resolves q) \<in> set evs \<and> (\<forall>x \<in> set q. is_space x))"
proof (induction evs arbitrary: c)
  case Nil
  then show ?case by simp
next
  case (Cons a evs)
  obtain t e where a: "a = (t, e)" by (cases a)
  from Cons.prems(2) a
  have fin: "phase (deliver evs (on_event e (advance t c))) = Settled (Inl Empty_body)" by simp
  from Cons.prems(1) have "phase c \<noteq> Settled (Inl Empty_body)" by simp
  from phase_advance_pending [OF this, of t] have adv: "advance t c = c"
  proof
    assume "\<exists>r. phase (advance t c) = Settled r \<and> r \<noteq> Inl Empty_body"
    then obtain r where r: "phase (advance t c) = Settled r" "r \<noteq> Inl Empty_body" by blast
    then have "phase (deliver evs (on_event e (advance t c))) = Settled r"
      by (intro phase_deliver_settled phase_on_event_settled)
    with fin r show ?thesis by simp
  qed
  show ?case
  proof (cases e)
    case (Fetch_resolves r)
    show ?thesis
    proof (cases "ok r")
      case True
      with Cons.prems(1) Fetch_resolves adv
      have "phase (on_event e (advance t c)) = Awaiting_text"
        by (simp add: on_response_def Let_def)
      from empty_body_from_text [OF this fin]
      have "\<exists>t q. (t, Text_resolves q) \<in> set (a # evs) \<and> (\<forall>x \<in> set q. is_space x)" by auto
      moreover from a Fetch_resolves True
      have "(t, Fetch_resolves r) \<in> set (a # evs) \<and> ok r" by simp
      then have "\<exists>t r. (t, Fetch_resolves r) \<in> set (a # evs) \<and> ok r" by blast
      ultimately show ?thesis by blast
    next
      case False
      with Cons.prems(1) Fetch_resolves adv
      have "phase (on_event e (advance t c)) = Settled (Inl (Http_error (status r) (statusText r)))"
        by (simp add: on_response_def catch_block_def Let_def)
      then have "phase (deliver evs (on_event e (advance t c)))
          = Settled (Inl (Http_error (status r) (statusText r)))"
        by (rule phase_deliver_settled)
      with fin show ?thesis by simp
    qed
  next
    case Fetch_rejects
    with Cons.prems(1) adv have "phase (on_event e (advance t c)) = Settled (Inl Network_error)"
      by (simp add: catch_block_def)
    then have "phase (deliver evs (on_event e (advance t c))) = Settled (Inl Network_error)"
      by (rule phase_deliver_settled)
    with fin show ?thesis by simp
  next
    case (Text_resolves q)
    with Cons.prems(1) adv have "on_event e (advance t c) = c" by simp
    with fin Cons.IH [OF Cons.prems(1)] show ?thesis by auto
  next
    case Text_rejects
    with Cons.prems(1) adv have "on_event e (advance t c) = c" by simp
    with fin Cons.IH [OF Cons.prems(1)] show ?thesis by auto
  qed
qed

lemma empty_body_in_time:
  assumes "t \<le> t0 + 5000"
  shows "phase (deliver [(t, Fetch_resolves r), (t', Text_resolves quote)] (fetchDailyQuote_start t0))
           = Settled (Inl Empty_body)
         \<longleftrightarrow> ok r \<and> (quote = [] \<or> (\<forall>c \<in> set quote. is_space c))"
proof -
  let ?c = "fetchDailyQuote_start t0"
  let ?c1 = "on_event (Fetch_resolves r) ?c"
  from assms have a: "advance t ?c = ?c"
    by (simp add: advance_def fetchDailyQuote_start_def timeout_ms_def)
  have "timeoutId ?c1 = None"
    by (simp add: fetchDailyQuote_start_def on_response_def catch_block_def Let_def)
  then have b: "advance t' ?c1 = ?c1" by (rule advance_cleared)
  from a b have d: "deliver [(t, Fetch_resolves r), (t', Text_resolves quote)] ?c
      = on_event (Text_resolves quote) ?c1"
    by simp
  show ?thesis
  proof (cases "ok r")
    case False
    then have "phase ?c1 = Settled (Inl (Http_error (status r) (statusText r)))"
      by (simp add: fetchDailyQuote_start_def on_response_def catch_block_def Let_def)
    with False show ?thesis unfolding d by simp
  next
    case True
    then have "?c1 = \<lparr>timeoutId = None, aborted = False, phase = Awaiting_text\<rparr>"
      by (simp add: fetchDailyQuote_start_def on_response_def Let_def)
    with True show ?thesis unfolding d
      by (simp add: on_text_def catch_block_def trim_Nil_iff)
  qed
qed

text \<open>
  Claim C5. When the response has arrived before the timer fired, the call rejects with
  the error of the empty body exactly when \<open>response.ok\<close> holds and the body is empty or
  holds white space only; so it does for the body \<open>""\<close>. And under any timeline of network
  events, a call that rejects with this error has received a response with
  \<open>response.ok\<close> and a body that is empty or holds white space only.
\<close>

theorem empty_body_iff:
  "(t \<le> t0 + 5000 \<longrightarrow>
      (phase (deliver [(t, Fetch_resolves r), (t', Text_resolves quote)]
                (fetchDailyQuote_start t0)) = Settled (Inl Empty_body)
       \<longleftrightarrow> ok r \<and> (quote = [] \<or> (\<forall>c \<in> set quote. is_space c)))) \<and>
   (phase (deliver evs (fetchDailyQuote_start t0)) = Settled (Inl Empty_body) \<longrightarrow>
      (\<exists>t r. (t, Fetch_resolves r) \<in> set evs \<and> ok r) \<and>
      (\<exists>t q. (t, Text_resolves q) \<in> set evs \<and> (q = [] \<or> (\<forall>c \<in> set q. is_space c))))"
proof (intro conjI impI)
  assume "t \<le> t0 + 5000"
  then show "phase (deliver [(t, Fetch_resolves r), (t', Text_resolves quote)]
                (fetchDailyQuote_start t0)) = Settled (Inl Empty_body)
       \<longleftrightarrow> ok r \<and> (quote = [] \<or> (\<forall>c \<in> set quote. is_space c))"
    by (rule empty_body_in_time)
next
  assume a: "phase (deliver evs (fetchDailyQuote_start t0)) = Settled (Inl Empty_body)"
  have "phase (fetchDailyQuote_start t0) = Awaiting_fetch"
    by (simp add: fetchDailyQuote_start_def)
  from empty_body_from_fetch [OF this a]
  show "\<exists>t r. (t, Fetch_resolves r) \<in> set evs \<and> ok r"
    and "\<exists>t q. (t, Text_resolves q) \<in> set evs \<and> (q = [] \<or> (\<forall>c \<in> set q. is_space c))"
    by blast+
qed

theorem empty_body_iff_witness:
  "phase (deliver [(120, Fetch_resolves \<lparr>ok = True, status = 200, statusText = []\<rparr>),
                   (130, Text_resolves [])]
       (fetchDailyQuote_start 0)) = Settled (Inl Empty_body) \<and>
   phase (deliver [(120, Fetch_resolves \<lparr>ok = True, status = 200, statusText = []\<rparr>),
                   (130, Text_resolves [0x20, 0x0A])]
       (fetchDailyQuote_start 0)) = Settled (Inl Empty_body) \<and>
   phase (deliver [(120, Fetch_resolves \<lparr>ok = True, status = 200, statusText = []\<rparr>),
                   (130, Text_resolves [0x48, 0x69])]
       (fetchDailyQuote_start 0)) \<noteq> Settled (Inl Empty_body)"
proof -
  let ?r = "\<lparr>ok = True, status = 200, statusText = []\<rparr>"
  have le: "(120 :: nat) \<le> 0 + 5000" by simp
  note inst = empty_body_iff [of 120 0 ?r 130 _ "[]", THEN conjunct1, rule_format, OF le]
  from inst [of "[]"] inst [of "[0x20, 0x0A]"] inst [of "[0x48, 0x69]"]
  show ?thesis by (simp add: is_space_def)
qed

lemma on_timeout_timeoutId: "timeoutId (on_timeout c) = None"
  by (cases "phase c") (simp_all add: on_timeout_def catch_block_def Let_def)

lemma cleared_advance: "cleared c \<Longrightarrow> cleared (advance t c)"
  by (auto simp: cleared_def advance_def on_timeout_timeoutId split: option.splits)

lemma cleared_on_event: "cleared c \<Longrightarrow> cleared (on_event e c)"
  by (cases e) (auto simp: cleared_def on_response_def on_text_def catch_block_def Let_def)

lemma cleared_deliver: "cleared c \<Longrightarrow> cleared (deliver evs c)"
  by (induction evs arbitrary: c) (auto simp: cleared_advance cleared_on_event)

text \<open>
  Claim C10. Under every timeline of network events, once the call has settled, with the
  quote or with any of the errors, its timer is no longer pending.
\<close>

theorem settled_timer_cleared:
  "phase (deliver evs (fetchDailyQuote_start t0)) = Settled r \<Longrightarrow>
   timeoutId (deliver evs (fetchDailyQuote_start t0)) = None"
proof -
  have "cleared (fetchDailyQuote_start t0)"
    by (simp add: cleared_def fetchDailyQuote_start_def)
  then have "cleared (deliver evs (fetchDailyQuote_start t0))"
    by (rule cleared_deliver)
  moreover assume "phase (deliver evs (fetchDailyQuote_start t0)) = Settled r"
  ultimately show ?thesis by (simp add: cleared_def)
qed

theorem settled_timer_cleared_witness:
  "(let c = deliver [(120, Fetch_resolves \<lparr>ok = True, status = 200, statusText = []\<rparr>),
                     (130, Text_resolves [0x48, 0x69])] (fetchDailyQuote_start 0)
    in phase c = Settled (Inr [0x48, 0x69]) \<and> timeoutId c = None) \<and>
   (let c = deliver [(120, Fetch_resolves \<lparr>ok = False, status = 503, statusText = []\<rparr>)]
              (fetchDailyQuote_start 0)
    in phase c = Settled (Inl (Http_error 503 [])) \<and> timeoutId c = None) \<and>
   (let c = deliver [(120, Fetch_resolves \<lparr>ok = True, status = 200, statusText = []\<rparr>),
                     (130, Text_resolves [])] (fetchDailyQuote_start 0)
    in phase c = Settled (Inl Empty_body) \<and> timeoutId c = None) \<and>
   (let c = deliver [(120, Fetch_rejects)] (fetchDailyQuote_start 0)
    in phase c = Settled (Inl Network_error) \<and> timeoutId c = None) \<and>
   (let c = deliver [(5001, Fetch_resolves \<lparr>ok = True, status = 200, statusText = []\<rparr>)]
              (fetchDailyQuote_start 0)
    in phase c = Settled (Inl Abort_error) \<and> timeoutId c = None)"
proof -
  let ?ok = "\<lparr>ok = True, status = 200, statusText = []\<rparr>"
  let ?e1 = "[(120, Fetch_resolves ?ok), (130, Text_resolves [0x48, 0x69])]"
  let ?e2 = "[(120 :: nat, Fetch_resolves \<lparr>ok = False, status = 503, statusText = []\<rparr>)]"
  let ?e3 = "[(120, Fetch_resolves ?ok), (130, Text_resolves [])]"
  let ?e4 = "[(120 :: nat, Fetch_rejects)]"
  let ?e5 = "[(5001 :: nat, Fetch_resolves ?ok)]"
  have 1: "phase (deliver ?e1 (fetchDailyQuote_start 0)) = Settled (Inr [0x48, 0x69])"
    by (simp add: fetchDailyQuote_start_def timeout_ms_def advance_def on_response_def
        on_text_def catch_block_def trim_def is_space_def cleanQuote_def replace_class_def
        limitLength_def maxLength_def)
  have 2: "phase (deliver ?e2 (fetchDailyQuote_start 0)) = Settled (Inl (Http_error 503 []))"
    by (simp add: fetchDailyQuote_start_def timeout_ms_def advance_def on_response_def
        catch_block_def)
  have 3: "phase (deliver ?e3 (fetchDailyQuote_start 0)) = Settled (Inl Empty_body)"
    by (simp add: fetchDailyQuote_start_def timeout_ms_def advance_def on_response_def
        on_text_def catch_block_def)
  have 4: "phase (deliver ?e4 (fetchDailyQuote_start 0)) = Settled (Inl Network_error)"
    by (simp add: fetchDailyQuote_start_def timeout_ms_def advance_def catch_block_def)
  have 5: "phase (deliver ?e5 (fetchDailyQuote_start 0)) = Settled (Inl Abort_error)"
    by (simp add: fetchDailyQuote_start_def timeout_ms_def advance_def on_timeout_def
        catch_block_def)
  from 1 2 3 4 5
    settled_timer_cleared [OF 1] settled_timer_cleared [OF 2] settled_timer_cleared [OF 3]
    settled_timer_cleared [OF 4] settled_timer_cleared [OF 5]
  show ?thesis by (simp only: Let_def simp_thms)
qed

lemma deliver_settled:
  "phase c = Settled r \<Longrightarrow> timeoutId c = None \<Longrightarrow> deliver evs c = c"
proof (induction evs)
  case Nil
  then show ?case by simp
next
  case (Cons a evs)
  obtain t e where a: "a = (t, e)" by (cases a)
  from Cons.prems have "advance t c = c" by (simp add: advance_def)
  moreover from Cons.prems have "on_event e c = c" by (cases e) simp_all
  ultimately show ?case using Cons a by simp
qed

text \<open>
  Claim C6. The timer is set to 5000 ms. When nothing has arrived from the network by
  then, the timer fires: the signal is aborted, the call rejects with the abort error and
  the timer is gone; whatever arrives later, a response included, leaves the call as it
  is, so it never settles with a quote.
\<close>

theorem timeout_aborts:
  assumes "t0 + 5000 < t"
  shows "advance t (fetchDailyQuote_start t0)
           = \<lparr>timeoutId = None, aborted = True, phase = Settled (Inl Abort_error)\<rparr> \<and>
         deliver ((t, e) # evs) (fetchDailyQuote_start t0) = advance t (fetchDailyQuote_start t0)"
proof -
  let ?s = "\<lparr>timeoutId = None, aborted = True, phase = Settled (Inl Abort_error)\<rparr>"
  from assms have a: "advance t (fetchDailyQuote_start t0) = ?s"
    by (simp add: advance_def fetchDailyQuote_start_def timeout_ms_def on_timeout_def
        catch_block_def)
  have "deliver ((t, e) # evs) (fetchDailyQuote_start t0) = deliver ((t, e) # evs) ?s"
    using a by (simp add: advance_def)
  also have "\<dots> = ?s" by (rule deliver_settled [of _ "Inl Abort_error"]) simp_all
  finally have "deliver ((t, e) # evs) (fetchDailyQuote_start t0) = ?s" .
  with a show ?thesis by simp
qed

theorem timeout_aborts_witness:
  "deliver [(5001, Fetch_resolves \<lparr>ok = True, status = 200, statusText = []\<rparr>),
            (5002, Text_resolves [0x48, 0x69])] (fetchDailyQuote_start 0)
     = \<lparr>timeoutId = None, aborted = True, phase = Settled (Inl Abort_error)\<rparr>"
proof -
  have "(0 :: nat) + 5000 < 5001" by simp
  from timeout_aborts [OF this] show ?thesis by (simp only:)
qed

section \<open>Properties of the typewriter\<close>






















subsection \<open>The delay between two ticks\<close>










lemma delay_values:
  "js_add (js_mul 0 30) 70 = 70"
  "js_add (js_mul (1 / 2) 30) 70 = 85"
  "js_add (js_mul (1 - 1 / 2 ^ 53) 30) 70 = 100"
  "js_add (js_mul (1 - 1 / 2 ^ 53) 40) 90 = 130"
  "js_add (js_mul (1 - 1 / 2 ^ 52) 30) 70 = 100"
  "js_add (js_mul (1 - 1 / 2 ^ 51) 40) 90 = 130"
  "js_add (js_mul 0 40) 90 = 90"
  by code_simp+

lemma flash_threshold: "\<not> 0 > round_double (8 / 10)"
  by code_simp

text \<open>
  The rounding gives the doubles that the literals \<open>0.8\<close> and \<open>0.1 + 0.2\<close> denote:
  \<open>0x1.999999999999Ap-1\<close> and \<open>0x1.3333333333334p-2\<close>.
\<close>

lemma round_double_examples:
  "round_double (8 / 10) = 3602879701896397 / 4503599627370496"
  "js_add (round_double (1 / 10)) (round_double (2 / 10)) = 1351079888211149 / 4503599627370496"
  by code_simp+






text \<open>A render leaves every pending timer pending, whatever the page and the text.\<close>

lemma startTypewriterAnimation_keeps_timers:
  "set (timers p) \<subseteq> set (timers (startTypewriterAnimation txt r1 r2 p))"
  by (auto simp: startTypewriterAnimation_def typeNextChar_def startCursorBlink_def
      setTimeout_def setInterval_def Let_def)

text \<open>
  Claim C8. \<open>startTypewriterAnimation\<close> keeps no handle of the timers it sets and clears
  none: after a render of \<open>ab\<close> and, before its next tick, a render of \<open>xy\<close> on the
  same element, the timer of the first render is still pending beside the timer of the
  second, and when it fires the element shows \<open>ab\<close>.
\<close>

theorem second_render_keeps_first_timer:
  "(let p1 = startTypewriterAnimation [0x61, 0x62] 0 0 empty_page;
        p2 = startTypewriterAnimation [0x78, 0x79] (1 / 2) 0 p1;
        t1 = \<lparr>tid = 0, due = 70, period = None, task = TypeNextChar 0\<rparr>
    in timers p1 = [t1] \<and>
       timers p2 = [t1, \<lparr>tid = 1, due = 85, period = None, task = TypeNextChar 1\<rparr>] \<and>
       textContent p2 = [0x78] \<and>
       textContent (fire t1 0 0 p2) = [0x61, 0x62])"
  using flash_threshold
  by (simp add: startTypewriterAnimation_def typeNextChar_def setTimeout_def fire_def
      empty_page_def char_delay_def pause_marks_def is_letter_def delay_values Let_def)

end
